theory Spec2Isabelle
  imports Complex_Main "HOL-Library.AList"
begin

section \<open>The ranking engine of \<^verbatim>\<open>worldsproject/compare_teams.py\<close>\<close>

text \<open>
  The development embeds \<^verbatim>\<open>calculate_weighted_rankings\<close> and
  \<^verbatim>\<open>calculate_head_to_head_records\<close> of \<^verbatim>\<open>compare_teams.py\<close>.

  Conventions of the embedding.
  \<^item> Team, league and game identifiers are Python ints: \<open>int\<close>.
  \<^item> Counters that start at 0 and are only ever incremented (\<^verbatim>\<open>wins\<close>, \<^verbatim>\<open>losses\<close>,
    \<^verbatim>\<open>total_games\<close>, \<^verbatim>\<open>len(games)\<close>, head-to-head tallies) are \<open>nat\<close>.
  \<^item> Python floats (\<^verbatim>\<open>points\<close>, \<^verbatim>\<open>normalized_points\<close>, win rates, the multipliers) are
    modelled by exact rational arithmetic, type \<open>rat\<close>: rounding is not modelled.
  \<^item> A Python \<^verbatim>\<open>dict\<close> (and \<^verbatim>\<open>defaultdict\<close>) is an association list in insertion order;
    \<open>AList.update\<close> overwrites the value of an existing key in place and appends a new key
    at the end, as assignment to a \<^verbatim>\<open>dict\<close> item does.
  \<^item> Exceptions are values: a computation that can raise returns \<open>py_error + 'a\<close>.
\<close>

subsection \<open>Errors\<close>

datatype py_error = UnboundLocalError | ZeroDivisionError

fun and_then :: "'e + 'a \<Rightarrow> ('a \<Rightarrow> 'e + 'b) \<Rightarrow> 'e + 'b" where
  "and_then (Inl e) f = Inl e"
| "and_then (Inr x) f = f x"

text \<open>Python's \<^verbatim>\<open>a / b\<close>: raises \<^verbatim>\<open>ZeroDivisionError\<close> when \<^verbatim>\<open>b\<close> is zero.\<close>

definition truediv :: "rat \<Rightarrow> rat \<Rightarrow> py_error + rat" where
  "truediv a b = (if b = 0 then Inl ZeroDivisionError else Inr (a / b))"

subsection \<open>Configuration constants\<close>

definition BASE_WIN_POINTS :: rat where
  "BASE_WIN_POINTS = 100"

definition SERIES_MULTIPLIERS :: "(nat \<times> rat) list" where
  "SERIES_MULTIPLIERS = [(1, 1), (3, 6 / 5), (5, 3 / 2)]"

text \<open>Every entry of \<^verbatim>\<open>LEAGUE_WEIGHTS\<close> is commented out in the source: the dict is empty.
  Its keys are league ids; the lookup key may be \<^verbatim>\<open>None\<close>.\<close>

definition LEAGUE_WEIGHTS :: "(int option \<times> rat) list" where
  "LEAGUE_WEIGHTS = []"

subsection \<open>Match records\<close>

text \<open>
  A JSON object of which the code reads only the key \<^verbatim>\<open>'id'\<close> is reduced to that key:
  \<open>None\<close> when the object has no key \<^verbatim>\<open>'id'\<close>, \<open>Some i\<close> when it has.
\<close>

type_synonym id_obj = "int option"

text \<open>
  A match record, reduced to the four keys the code reads.
  \<^item> \<open>winner\<close>: \<^verbatim>\<open>match.get('winner')\<close>; \<open>None\<close> when the key is absent or its value is null.
    An empty object \<^verbatim>\<open>{}\<close> is \<open>Some None\<close>: it is falsy and has no \<^verbatim>\<open>'id'\<close>, and both tests
    of the guard \<^verbatim>\<open>winner and 'id' in winner\<close> send it the same way.
  \<^item> \<open>opponents\<close>: \<^verbatim>\<open>match.get('opponents', [])\<close>; each entry is reduced to its key
    \<^verbatim>\<open>'opponent'\<close> (\<open>None\<close> when the entry has no such key).
  \<^item> \<open>games\<close>: \<^verbatim>\<open>match.get('games', [])\<close>, a list of which only the length is read.
  \<^item> \<open>league\<close>: \<^verbatim>\<open>match.get('league', {}).get('id')\<close>.
\<close>

record match =
  winner :: "id_obj option"
  opponents :: "id_obj option list"
  games :: "int list"
  league :: "int option"

text \<open>The guard \<^verbatim>\<open>if winner and 'id' in winner\<close> followed by \<^verbatim>\<open>winner['id']\<close>.\<close>

definition winner_id :: "match \<Rightarrow> int option" where
  "winner_id m = (case winner m of Some (Some i) \<Rightarrow> Some i | _ \<Rightarrow> None)"

text \<open>\<^verbatim>\<open>[opp['opponent']['id'] for opp in match.get('opponents', [])
   if 'opponent' in opp and 'id' in opp['opponent']]\<close>\<close>

definition opponent_ids :: "match \<Rightarrow> int list" where
  "opponent_ids m =
     List.map_filter (\<lambda>opp. case opp of Some (Some i) \<Rightarrow> Some i | _ \<Rightarrow> None) (opponents m)"

text \<open>\<^verbatim>\<open>next((opp_id for opp_id in opponents if opp_id != winner_id), None)\<close>\<close>

definition loser_of :: "int list \<Rightarrow> int \<Rightarrow> int option" where
  "loser_of opps w = List.find (\<lambda>opp_id. opp_id \<noteq> w) opps"

subsection \<open>Standings\<close>

record standing =
  wins :: nat
  losses :: nat
  points :: rat
  name :: string
  total_games :: nat
  normalized_points :: rat

text \<open>The factory of the \<^verbatim>\<open>defaultdict\<close>.\<close>

definition default_standing :: standing where
  "default_standing =
     \<lparr>wins = 0, losses = 0, points = 0, name = [], total_games = 0, normalized_points = 0\<rparr>"

type_synonym ranking = "(int \<times> standing) list"

text \<open>\<^verbatim>\<open>k in ranking_data\<close>. The key may be \<^verbatim>\<open>None\<close> (an unresolved loser), which is
  never a key of the dict.\<close>

definition has_key :: "('k \<times> 'v) list \<Rightarrow> 'k \<Rightarrow> bool" where
  "has_key d k = (map_of d k \<noteq> None)"

text \<open>\<^verbatim>\<open>ranking_data[k]\<close> read on a \<^verbatim>\<open>defaultdict\<close>: the value of a missing key is that
  of the factory (the read also inserts the key: see \<open>modify\<close>).\<close>

definition item :: "ranking \<Rightarrow> int \<Rightarrow> standing" where
  "item rd k = (case map_of rd k of Some s \<Rightarrow> s | None \<Rightarrow> default_standing)"

text \<open>\<^verbatim>\<open>ranking_data[k][field] = ...\<close> and \<^verbatim>\<open>ranking_data[k][field] += ...\<close>: the read of
  \<^verbatim>\<open>ranking_data[k]\<close> inserts a missing key, then the standing is changed in place.\<close>

definition modify :: "ranking \<Rightarrow> int \<Rightarrow> (standing \<Rightarrow> standing) \<Rightarrow> ranking" where
  "modify rd k f = AList.update k (f (item rd k)) rd"

text \<open>\<^verbatim>\<open>for team_id, team_name in team_id_name_map.items():
    ranking_data[team_id]["name"] = team_name\<close>\<close>

fun init_ranking_data :: "(int \<times> string) list \<Rightarrow> ranking \<Rightarrow> ranking" where
  "init_ranking_data [] rd = rd"
| "init_ranking_data ((team_id, team_name) # rest) rd =
     init_ranking_data rest (modify rd team_id (\<lambda>s. s\<lparr>name := team_name\<rparr>))"

subsection \<open>First pass: wins, losses and total games\<close>

text \<open>
  The state of the loop is the dict and the local variable \<^verbatim>\<open>opponents\<close>, which is
  assigned only inside the branch \<^verbatim>\<open>if winner and 'id' in winner\<close> and read after it:
  \<open>None\<close> is the unbound variable, and reading it raises \<^verbatim>\<open>UnboundLocalError\<close>.
\<close>

definition count_result :: "match \<Rightarrow> ranking \<times> int list option \<Rightarrow> ranking \<times> int list option" where
  "count_result m st =
     (case winner_id m of
        None \<Rightarrow> st
      | Some w \<Rightarrow>
          (let opps = opponent_ids m;
               loser = loser_of opps w;
               rd1 = (if has_key (fst st) w
                      then modify (fst st) w (\<lambda>s. s\<lparr>wins := wins s + 1\<rparr>) else fst st);
               rd2 = (case loser of
                        Some l \<Rightarrow> if has_key rd1 l
                                  then modify rd1 l (\<lambda>s. s\<lparr>losses := losses s + 1\<rparr>) else rd1
                      | None \<Rightarrow> rd1)
           in (rd2, Some opps)))"

definition add_games :: "ranking \<Rightarrow> int \<Rightarrow> nat \<Rightarrow> ranking" where
  "add_games rd t n =
     (if has_key rd t then modify rd t (\<lambda>s. s\<lparr>total_games := total_games s + n\<rparr>) else rd)"

definition count_games :: "match \<Rightarrow> ranking \<times> int list option \<Rightarrow> py_error + (ranking \<times> int list option)" where
  "count_games m st =
     (let num_games = length (games m) in
      case snd st of
        None \<Rightarrow> Inl UnboundLocalError
      | Some opps \<Rightarrow>
          (case opps of
             [team1_id, team2_id] \<Rightarrow>
               Inr (add_games (add_games (fst st) team1_id num_games) team2_id num_games, Some opps)
           | _ \<Rightarrow> Inr st))"

definition first_pass_step :: "match \<Rightarrow> ranking \<times> int list option \<Rightarrow> py_error + (ranking \<times> int list option)" where
  "first_pass_step m st = count_games m (count_result m st)"

fun first_pass :: "match list \<Rightarrow> ranking \<times> int list option \<Rightarrow> py_error + (ranking \<times> int list option)" where
  "first_pass [] st = Inr st"
| "first_pass (m # ms) st = and_then (first_pass_step m st) (first_pass ms)"

subsection \<open>Win rates\<close>

definition winrate_of :: "standing \<Rightarrow> py_error + rat" where
  "winrate_of d =
     (let total_matches = wins d + losses d in
      if total_matches > 0 then truediv (of_nat (wins d)) (of_nat total_matches) else Inr 0)"

fun calc_winrates :: "ranking \<Rightarrow> py_error + (int \<times> rat) list" where
  "calc_winrates [] = Inr []"
| "calc_winrates ((team_id, d) # rest) =
     and_then (winrate_of d) (\<lambda>r.
     and_then (calc_winrates rest) (\<lambda>wr. Inr ((team_id, r) # wr)))"

text \<open>\<^verbatim>\<open>winrates.get(team_id, 0)\<close>\<close>

definition winrate_get :: "(int \<times> rat) list \<Rightarrow> int \<Rightarrow> rat" where
  "winrate_get winrates k = (case map_of winrates k of Some r \<Rightarrow> r | None \<Rightarrow> 0)"

subsection \<open>Second pass: weighted points\<close>

text \<open>\<^verbatim>\<open>LEAGUE_WEIGHTS.get(league_id, 1.0)\<close> and \<^verbatim>\<open>SERIES_MULTIPLIERS.get(num_games, 1.0)\<close>\<close>

definition league_multiplier :: "int option \<Rightarrow> rat" where
  "league_multiplier league_id = (case map_of LEAGUE_WEIGHTS league_id of Some w \<Rightarrow> w | None \<Rightarrow> 1)"

definition series_multiplier :: "nat \<Rightarrow> rat" where
  "series_multiplier num_games =
     (case map_of SERIES_MULTIPLIERS num_games of Some w \<Rightarrow> w | None \<Rightarrow> 1)"

text \<open>\<^verbatim>\<open>winrate_multiplier = 1.0
if winner_winrate < loser_winrate:
    winrate_multiplier = 1.0 + (loser_winrate - winner_winrate)\<close>\<close>

definition winrate_multiplier :: "rat \<Rightarrow> rat \<Rightarrow> rat" where
  "winrate_multiplier winner_winrate loser_winrate =
     (if winner_winrate < loser_winrate then 1 + (loser_winrate - winner_winrate) else 1)"

definition points_awarded :: "(int \<times> rat) list \<Rightarrow> match \<Rightarrow> int \<Rightarrow> int \<Rightarrow> rat" where
  "points_awarded winrates m w l =
     BASE_WIN_POINTS * series_multiplier (length (games m))
       * winrate_multiplier (winrate_get winrates w) (winrate_get winrates l)
       * league_multiplier (league m)"

text \<open>The guard \<^verbatim>\<open>if winner_id and loser_id\<close> tests truthiness: \<^verbatim>\<open>None\<close> and \<^verbatim>\<open>0\<close> are
  both falsy.\<close>

definition truthy :: "int option \<Rightarrow> bool" where
  "truthy v = (case v of None \<Rightarrow> False | Some i \<Rightarrow> i \<noteq> 0)"

definition second_pass_step :: "(int \<times> rat) list \<Rightarrow> match \<Rightarrow> ranking \<Rightarrow> ranking" where
  "second_pass_step winrates m rd =
     (case winner_id m of
        None \<Rightarrow> rd
      | Some w \<Rightarrow>
          (case loser_of (opponent_ids m) w of
             None \<Rightarrow> rd
           | Some l \<Rightarrow>
               if truthy (Some w) \<and> truthy (Some l)
               then modify rd w (\<lambda>s. s\<lparr>points := points s + points_awarded winrates m w l\<rparr>)
               else rd))"

fun second_pass :: "(int \<times> rat) list \<Rightarrow> match list \<Rightarrow> ranking \<Rightarrow> ranking" where
  "second_pass winrates [] rd = rd"
| "second_pass winrates (m # ms) rd = second_pass winrates ms (second_pass_step winrates m rd)"

subsection \<open>Final pass and sorting\<close>

definition normalize :: "standing \<Rightarrow> py_error + standing" where
  "normalize d =
     (if total_games d > 0
      then and_then (truediv (points d) (of_nat (total_games d)))
             (\<lambda>q. Inr (d\<lparr>normalized_points := q\<rparr>))
      else Inr d)"

fun final_pass :: "ranking \<Rightarrow> py_error + ranking" where
  "final_pass [] = Inr []"
| "final_pass ((team_id, d) # rest) =
     and_then (normalize d) (\<lambda>d'.
     and_then (final_pass rest) (\<lambda>rest'. Inr ((team_id, d') # rest')))"

text \<open>\<^verbatim>\<open>ranked_list.sort(key=lambda x: x["normalized_points"], reverse=True)\<close>: a stable
  sort in descending order of the key, which is the stable ascending sort by the negated key.\<close>

definition sort_ranked :: "standing list \<Rightarrow> standing list" where
  "sort_ranked ranked_list = sort_key (\<lambda>x. - normalized_points x) ranked_list"

definition calculate_weighted_rankings ::
  "match list \<Rightarrow> (int \<times> string) list \<Rightarrow> py_error + standing list" where
  "calculate_weighted_rankings matches team_id_name_map =
     and_then (first_pass matches (init_ranking_data team_id_name_map [], None)) (\<lambda>st.
     and_then (calc_winrates (fst st)) (\<lambda>winrates.
     and_then (final_pass (second_pass winrates matches (fst st))) (\<lambda>rd.
     Inr (sort_ranked (map snd rd)))))"

subsection \<open>Head-to-head records\<close>

type_synonym h2h = "((int \<times> int) \<times> (int \<times> nat) list) list"

text \<open>\<^verbatim>\<open>tuple(sorted((winner_id, loser_id)))\<close>\<close>

definition pair_key :: "int \<Rightarrow> int \<Rightarrow> int \<times> int" where
  "pair_key w l = (min w l, max w l)"

text \<open>\<^verbatim>\<open>record[k] += n\<close> on a \<^verbatim>\<open>defaultdict(int)\<close>.\<close>

definition bump :: "(int \<times> nat) list \<Rightarrow> int \<Rightarrow> nat \<Rightarrow> (int \<times> nat) list" where
  "bump record k n = AList.update k ((case map_of record k of Some c \<Rightarrow> c | None \<Rightarrow> 0) + n) record"

definition h2h_step :: "match \<Rightarrow> h2h \<Rightarrow> h2h" where
  "h2h_step m h2h_records =
     (case winner_id m of
        None \<Rightarrow> h2h_records
      | Some w \<Rightarrow>
          (case loser_of (opponent_ids m) w of
             None \<Rightarrow> h2h_records
           | Some l \<Rightarrow>
               if truthy (Some w) \<and> truthy (Some l)
               then (let key = pair_key w l;
                         record = (case map_of h2h_records key of Some r \<Rightarrow> r | None \<Rightarrow> [])
                     in AList.update key (bump (bump record w 1) l 0) h2h_records)
               else h2h_records))"


subsection \<open>Notions used in the statements\<close>

text \<open>The values that the two guarded divisions compute: the win rate of a standing and the
  standing after the final pass.\<close>

definition rate :: "standing \<Rightarrow> rat" where
  "rate d = (if wins d + losses d > 0 then of_nat (wins d) / of_nat (wins d + losses d) else 0)"

definition normalized :: "standing \<Rightarrow> standing" where
  "normalized d =
     (if total_games d > 0 then d\<lparr>normalized_points := points d / of_nat (total_games d)\<rparr> else d)"

text \<open>A team id is tracked when it is a key of the team map.\<close>

definition tracked :: "(int \<times> string) list \<Rightarrow> int \<Rightarrow> bool" where
  "tracked team_id_name_map t = (t \<in> set (map fst team_id_name_map))"

text \<open>The resolved outcome of a match, as all three loops of the source resolve it: the id of
  the winner, and as loser the first listed opponent id that differs from it.\<close>

definition outcome :: "match \<Rightarrow> (int \<times> int) option" where
  "outcome m =
     (case winner_id m of
        None \<Rightarrow> None
      | Some w \<Rightarrow> (case loser_of (opponent_ids m) w of None \<Rightarrow> None | Some l \<Rightarrow> Some (w, l)))"

text \<open>The invariant of the three loops that precede the final pass: no standing has
  received a value of \<^verbatim>\<open>normalized_points\<close> yet.\<close>

definition np_zero :: "ranking \<Rightarrow> bool" where
  "np_zero rd = (\<forall>s \<in> snd ` set rd. normalized_points s = 0)"

text \<open>A record as the API delivers it, for the examples: the winner object, when there is
  one, has an id; every listed opponent has an id; the games are listed by their ids; there
  is no league.\<close>

definition api_match :: "int option \<Rightarrow> int list \<Rightarrow> int list \<Rightarrow> match" where
  "api_match w opps gs =
     \<lparr>winner = map_option Some w, opponents = map (\<lambda>i. Some (Some i)) opps, games = gs,
      league = None\<rparr>"

text \<open>The sum of \<^verbatim>\<open>total_games\<close> over a ranking dict.\<close>

definition total :: "ranking \<Rightarrow> nat" where
  "total rd = sum_list (map (total_games \<circ> snd) rd)"

text \<open>What the games accounting of the first pass adds for a match, when it reads the
  match's own opponent list: for a list of exactly two ids, the games count once for each of
  the two ids that is tracked.\<close>

definition games_credit :: "(int \<times> string) list \<Rightarrow> match \<Rightarrow> nat" where
  "games_credit tm m =
     (case opponent_ids m of
        [team1_id, team2_id] \<Rightarrow>
          length (games m) * ((if tracked tm team1_id then 1 else 0) + (if tracked tm team2_id then 1 else 0))
      | _ \<Rightarrow> 0)"

text \<open>A match that lists exactly two opponent ids, both tracked.\<close>

definition two_tracked_opponents :: "(int \<times> string) list \<Rightarrow> match \<Rightarrow> bool" where
  "two_tracked_opponents tm m =
     (case opponent_ids m of
        [team1_id, team2_id] \<Rightarrow> tracked tm team1_id \<and> tracked tm team2_id
      | _ \<Rightarrow> False)"

text \<open>Twice the sum of the games counts over the matches that list exactly two tracked
  opponents.\<close>

definition claimed_total_games :: "(int \<times> string) list \<Rightarrow> match list \<Rightarrow> nat" where
  "claimed_total_games tm ms =
     2 * sum_list (map (\<lambda>m. length (games m)) (filter (two_tracked_opponents tm) ms))"





text \<open>The invariant of all loops for the points: no standing has negative points.\<close>

definition points_nonneg :: "ranking \<Rightarrow> bool" where
  "points_nonneg rd = (\<forall>s \<in> snd ` set rd. 0 \<le> points s)"

section \<open>Properties\<close>

subsection \<open>Dictionaries\<close>

lemma has_key_iff: "has_key d k \<longleftrightarrow> k \<in> fst ` set d"
  by (simp add: has_key_def map_of_eq_None_iff)

lemma keys_modify: "fst ` set (modify rd k f) = insert k (fst ` set rd)"
  by (simp add: modify_def dom_update)

lemma set_update_subset: "set (AList.update k v al) \<subseteq> insert (k, v) (set al)"
  by (induction al) auto

lemma item_cases: "item rd k = default_standing \<or> item rd k \<in> snd ` set rd"
  by (auto simp: item_def split: option.splits dest!: map_of_SomeD
      intro: image_eqI [where x = "(k, s)" for s])

lemma all_modify:
  assumes "\<forall>s \<in> snd ` set rd. P s" and "P default_standing" and "\<And>s. P s \<Longrightarrow> P (f s)"
  shows "\<forall>s \<in> snd ` set (modify rd k f). P s"
proof -
  have "P (f (item rd k))"
    using item_cases [of rd k] assms by auto
  then show ?thesis
    using set_update_subset [of k "f (item rd k)" rd] assms(1)
    by (auto simp: modify_def)
qed

subsection \<open>When the first pass returns\<close>

lemma count_games_bound:
  "snd st = Some os \<Longrightarrow> \<exists>rd'. count_games m st = Inr (rd', Some os)"
  by (cases st) (auto simp: count_games_def Let_def split: list.splits)

lemma count_games_unbound: "snd st = None \<Longrightarrow> count_games m st = Inl UnboundLocalError"
  by (simp add: count_games_def)

lemma count_result_no_winner: "winner_id m = None \<Longrightarrow> count_result m st = st"
  by (simp add: count_result_def)

lemma count_result_winner:
  "winner_id m = Some w \<Longrightarrow> snd (count_result m st) = Some (opponent_ids m)"
  by (simp add: count_result_def Let_def)

lemma first_pass_step_bound:
  "snd st \<noteq> None \<or> winner_id m \<noteq> None \<Longrightarrow> \<exists>rd' os. first_pass_step m st = Inr (rd', Some os)"
proof (cases "winner_id m")
  case None
  assume "snd st \<noteq> None \<or> winner_id m \<noteq> None"
  with None obtain os where "snd st = Some os" by auto
  then show ?thesis
    using count_games_bound [of st os m] None
    by (auto simp: first_pass_step_def count_result_no_winner)
next
  case (Some w)
  then show ?thesis
    using count_games_bound [of "count_result m st" "opponent_ids m" m] count_result_winner [of m w st]
    by (auto simp: first_pass_step_def)
qed

lemma first_pass_bound:
  "snd st \<noteq> None \<Longrightarrow> \<exists>rd' os. first_pass ms st = Inr (rd', Some os)"
proof (induction ms arbitrary: st)
  case Nil
  then show ?case by (cases st) auto
next
  case (Cons m ms)
  from Cons.prems obtain rd' os where "first_pass_step m st = Inr (rd', Some os)"
    using first_pass_step_bound by blast
  then show ?case using Cons.IH [of "(rd', Some os)"] by simp
qed

lemma first_pass_unbound:
  "winner_id m = None \<Longrightarrow> first_pass (m # ms) (rd, None) = Inl UnboundLocalError"
  by (simp add: first_pass_step_def count_result_no_winner count_games_unbound)

lemma first_pass_winner_first:
  assumes "winner_id m \<noteq> None"
  shows "\<exists>rd' os. first_pass (m # ms) st = Inr (rd', Some os)"
proof -
  obtain rd' os where "first_pass_step m st = Inr (rd', Some os)"
    using first_pass_step_bound assms by blast
  then show ?thesis using first_pass_bound [of "(rd', Some os)" ms] by simp
qed

subsection \<open>The guarded divisions never raise\<close>

lemma winrate_of_rate: "winrate_of d = Inr (rate d)"
  by (simp add: winrate_of_def rate_def truediv_def Let_def)

lemma calc_winrates_eq: "calc_winrates rd = Inr (map (\<lambda>(k, d). (k, rate d)) rd)"
  by (induction rd) (auto simp: winrate_of_rate)

lemma normalize_eq: "normalize d = Inr (normalized d)"
  by (simp add: normalize_def normalized_def truediv_def)

lemma final_pass_eq: "final_pass rd = Inr (map (\<lambda>(k, d). (k, normalized d)) rd)"
  by (induction rd) (auto simp: normalize_eq)

lemma cwr_eq:
  "calculate_weighted_rankings ms tm =
     and_then (first_pass ms (init_ranking_data tm [], None)) (\<lambda>st.
       Inr (sort_ranked (map (normalized \<circ> snd)
         (second_pass (map (\<lambda>(k, d). (k, rate d)) (fst st)) ms (fst st)))))"
  by (simp add: calculate_weighted_rankings_def calc_winrates_eq final_pass_eq comp_def
      case_prod_unfold)

text \<open>The run returns exactly when the match list is empty or its first match has a winner
  with an id; otherwise the first read of \<^verbatim>\<open>opponents\<close> raises.\<close>

lemma cwr_returns_iff:
  "(\<exists>out. calculate_weighted_rankings ms tm = Inr out) \<longleftrightarrow> (ms = [] \<or> winner_id (hd ms) \<noteq> None)"
proof (cases ms)
  case Nil
  then show ?thesis by (simp add: cwr_eq)
next
  case (Cons m ms')
  show ?thesis
  proof (cases "winner_id m")
    case None
    then show ?thesis using Cons by (simp add: cwr_eq first_pass_unbound del: first_pass.simps)
  next
    case (Some w)
    then obtain rd' os
      where "first_pass (m # ms') (init_ranking_data tm [], None) = Inr (rd', Some os)"
      using first_pass_winner_first [of m ms'] by blast
    then show ?thesis using Cons Some by (simp add: cwr_eq del: first_pass.simps)
  qed
qed

lemma cwr_error: "calculate_weighted_rankings ms tm = Inl e \<Longrightarrow> e = UnboundLocalError"
  using cwr_returns_iff [of ms tm] first_pass_unbound [of "hd ms" "tl ms" "init_ranking_data tm []"]
  by (cases ms; cases "winner_id (hd ms)") (auto simp: cwr_eq simp del: first_pass.simps)

text \<open>The definitions that a run on a concrete input unfolds.\<close>

lemmas eval_defs =
  calculate_weighted_rankings_def first_pass_step_def count_result_def count_games_def
  winner_id_def opponent_ids_def loser_of_def List.map_filter_def has_key_def modify_def item_def
  add_games_def default_standing_def winrate_of_def truediv_def winrate_get_def
  league_multiplier_def series_multiplier_def winrate_multiplier_def points_awarded_def
  truthy_def second_pass_step_def normalize_def sort_ranked_def BASE_WIN_POINTS_def
  SERIES_MULTIPLIERS_def LEAGUE_WEIGHTS_def Let_def

subsection \<open>No standing is normalised before the final pass\<close>

lemma np_modify:
  assumes "np_zero rd" and "\<And>s. normalized_points (f s) = normalized_points s"
  shows "np_zero (modify rd k f)"
  unfolding np_zero_def
  using assms by (intro all_modify) (simp_all add: default_standing_def np_zero_def)

lemma np_init: "np_zero rd \<Longrightarrow> np_zero (init_ranking_data tm rd)"
proof (induction tm rd rule: init_ranking_data.induct)
  case (1 rd)
  then show ?case by simp
next
  case (2 team_id team_name rest rd)
  have "np_zero (modify rd team_id (\<lambda>s. s\<lparr>name := team_name\<rparr>))"
    by (rule np_modify [OF "2.prems"]) simp
  then show ?case using "2.IH" by simp
qed

lemma np_count_result:
  assumes "np_zero (fst st)"
  shows "np_zero (fst (count_result m st))"
proof (cases "winner_id m")
  case None
  then show ?thesis using assms by (simp add: count_result_no_winner)
next
  case (Some w)
  define rd1 where
    "rd1 = (if has_key (fst st) w then modify (fst st) w (\<lambda>s. s\<lparr>wins := wins s + 1\<rparr>) else fst st)"
  have 1: "np_zero rd1"
    unfolding rd1_def using np_modify [OF assms, of "\<lambda>s. s\<lparr>wins := wins s + 1\<rparr>" w] assms by simp
  have 2: "np_zero (modify rd1 l (\<lambda>s. s\<lparr>losses := losses s + 1\<rparr>))" for l
    by (rule np_modify [OF 1]) simp
  have "fst (count_result m st) =
      (case loser_of (opponent_ids m) w of
         Some l \<Rightarrow> if has_key rd1 l then modify rd1 l (\<lambda>s. s\<lparr>losses := losses s + 1\<rparr>) else rd1
       | None \<Rightarrow> rd1)"
    using Some unfolding rd1_def by (simp add: count_result_def Let_def)
  then show ?thesis
    using 1 2 by (simp split: option.splits)
qed

lemma np_add_games: "np_zero rd \<Longrightarrow> np_zero (add_games rd t n)"
  using np_modify [of rd "\<lambda>s. s\<lparr>total_games := total_games s + n\<rparr>" t]
  by (simp add: add_games_def)

lemma np_count_games:
  assumes "np_zero (fst st)" and "count_games m st = Inr st'"
  shows "np_zero (fst st')"
proof -
  have "np_zero (add_games (add_games (fst st) a n) b n)" for a b n
    by (intro np_add_games assms(1))
  then show ?thesis
    using assms by (auto simp: count_games_def Let_def split: option.splits list.splits)
qed

lemma np_first_pass:
  assumes "np_zero (fst st)" and "first_pass ms st = Inr st'"
  shows "np_zero (fst st')"
  using assms
proof (induction ms arbitrary: st)
  case Nil
  then show ?case by simp
next
  case (Cons m ms)
  from Cons.prems(2) obtain st1
    where 1: "first_pass_step m st = Inr st1" and 2: "first_pass ms st1 = Inr st'"
    by (cases "first_pass_step m st") auto
  from 1 have "np_zero (fst st1)"
    unfolding first_pass_step_def by (rule np_count_games [OF np_count_result [OF Cons.prems(1)]])
  then show ?case using Cons.IH 2 by blast
qed

lemma np_second_pass_step:
  assumes "np_zero rd"
  shows "np_zero (second_pass_step wr m rd)"
proof -
  have "np_zero (modify rd w (\<lambda>s. s\<lparr>points := points s + p\<rparr>))" for w p
    by (rule np_modify [OF assms]) simp
  then show ?thesis
    using assms by (simp add: second_pass_step_def split: option.splits)
qed

lemma np_second_pass: "np_zero rd \<Longrightarrow> np_zero (second_pass wr ms rd)"
  by (induction ms arbitrary: rd) (simp_all add: np_second_pass_step)

lemma cwr_InrD:
  assumes "calculate_weighted_rankings ms tm = Inr out"
  obtains st where "first_pass ms (init_ranking_data tm [], None) = Inr st"
    and "out = sort_ranked (map (normalized \<circ> snd)
         (second_pass (map (\<lambda>(k, d). (k, rate d)) (fst st)) ms (fst st)))"
proof (cases "first_pass ms (init_ranking_data tm [], None)")
  case (Inl e)
  then show ?thesis using assms by (simp add: cwr_eq)
next
  case (Inr st)
  then show ?thesis using assms that [of st] by (simp add: cwr_eq)
qed

lemma normalized_ok:
  "normalized_points d = 0 \<Longrightarrow>
   normalized_points (normalized d) =
     (if total_games (normalized d) > 0 then points (normalized d) / of_nat (total_games (normalized d)) else 0)"
  by (simp add: normalized_def)

lemma cwr_standing:
  assumes "calculate_weighted_rankings ms tm = Inr out" and "s \<in> set out"
  shows "\<exists>d. normalized_points d = 0 \<and> s = normalized d"
proof -
  from assms(1) obtain st where fp: "first_pass ms (init_ranking_data tm [], None) = Inr st"
    and eq: "out = sort_ranked (map (normalized \<circ> snd)
         (second_pass (map (\<lambda>(k, d). (k, rate d)) (fst st)) ms (fst st)))"
    by (rule cwr_InrD)
  define rd where "rd = second_pass (map (\<lambda>(k, d). (k, rate d)) (fst st)) ms (fst st)"
  have "np_zero (init_ranking_data tm [])"
    by (rule np_init) (simp add: np_zero_def)
  then have "np_zero (fst st)"
    using np_first_pass [OF _ fp] by simp
  then have "np_zero rd"
    unfolding rd_def by (rule np_second_pass)
  moreover have "set out = normalized ` snd ` set rd"
    unfolding eq rd_def [symmetric] by (simp add: sort_ranked_def image_comp)
  ultimately show ?thesis
    using assms(2) unfolding np_zero_def by blast
qed

lemma sorted_neg_key:
  "sorted (map (\<lambda>x. - f x) xs) \<longleftrightarrow> sorted_wrt (\<lambda>a b. b \<le> a) (map f xs)" for f :: "'a \<Rightarrow> rat"
  by (simp add: sorted_wrt_map)

subsection \<open>Example runs\<close>

lemmas example_defs = api_match_def eval_defs

lemma run_one_match:
  "calculate_weighted_rankings [api_match (Some 2) [1, 2] [101, 102, 103]]
      [(1, ''A''), (2, ''B''), (3, ''C'')] =
    Inr [\<lparr>wins = 1, losses = 0, points = 120, name = ''B'', total_games = 3, normalized_points = 40\<rparr>,
         \<lparr>wins = 0, losses = 1, points = 0, name = ''A'', total_games = 3, normalized_points = 0\<rparr>,
         \<lparr>wins = 0, losses = 0, points = 0, name = ''C'', total_games = 0, normalized_points = 0\<rparr>]"
  by (simp add: example_defs)

subsection \<open>Reading a standing after an update\<close>

lemma item_modify: "item (modify rd k f) k' = (if k' = k then f (item rd k) else item rd k')"
  by (simp add: item_def modify_def update_conv')

lemma has_key_modify: "has_key (modify rd k f) k' \<longleftrightarrow> k' = k \<or> has_key rd k'"
  by (simp add: has_key_def modify_def update_conv')

subsection \<open>Win rates and multipliers\<close>

lemma rate_bounds: "0 \<le> rate d \<and> rate d \<le> 1"
  by (simp add: rate_def divide_le_eq_1)

lemma winrate_get_rate:
  "winrate_get (map (\<lambda>(k, d). (k, rate d)) rd) k = (case map_of rd k of Some d \<Rightarrow> rate d | None \<Rightarrow> 0)"
  by (simp add: winrate_get_def map_of_map split: option.splits)

lemma winrate_get_bounds:
  assumes "calc_winrates rd = Inr winrates"
  shows "0 \<le> winrate_get winrates k \<and> winrate_get winrates k \<le> 1"
proof -
  from assms have "winrates = map (\<lambda>(k, d). (k, rate d)) rd"
    by (simp add: calc_winrates_eq)
  then show ?thesis
    using rate_bounds by (simp add: winrate_get_rate split: option.splits)
qed

lemma series_multiplier_eq:
  "series_multiplier n = (if n = 1 then 1 else if n = 3 then 6 / 5 else if n = 5 then 3 / 2 else 1)"
  by (simp add: series_multiplier_def SERIES_MULTIPLIERS_def)

lemma league_multiplier_absent: "map_of LEAGUE_WEIGHTS lg = None \<Longrightarrow> league_multiplier lg = 1"
  by (simp add: league_multiplier_def)

lemma second_pass_step_scored:
  assumes "winner_id m = Some w" and "loser_of (opponent_ids m) w = Some l" and "w \<noteq> 0" and "l \<noteq> 0"
  shows "second_pass_step winrates m rd =
     modify rd w (\<lambda>s. s\<lparr>points := points s + points_awarded winrates m w l\<rparr>)"
  using assms by (simp add: second_pass_step_def truthy_def)

subsection \<open>What the first pass counts\<close>

lemma outcome_SomeD:
  "outcome m = Some (w, l) \<Longrightarrow> winner_id m = Some w \<and> loser_of (opponent_ids m) w = Some l"
  by (simp add: outcome_def split: option.splits)

lemma loser_of_neq: "loser_of opps w = Some l \<Longrightarrow> l \<noteq> w"
  by (auto simp: loser_of_def find_Some_iff)

lemma wins_add_games: "wins (item (add_games rd t n) k) = wins (item rd k)"
  by (simp add: add_games_def item_modify)

lemma losses_add_games: "losses (item (add_games rd t n) k) = losses (item rd k)"
  by (simp add: add_games_def item_modify)

lemma count_games_Inr:
  assumes "snd st = Some os"
  shows "\<exists>rd'. count_games m st = Inr (rd', Some os)
           \<and> (\<forall>k. wins (item rd' k) = wins (item (fst st) k) \<and> losses (item rd' k) = losses (item (fst st) k))"
  using assms
  by (cases st) (auto simp: count_games_def Let_def wins_add_games losses_add_games split: list.splits)

lemma count_result_counts:
  assumes "winner_id m = Some w" and "loser_of (opponent_ids m) w = Some l"
  shows "snd (count_result m (rd, ov)) = Some (opponent_ids m)"
    and "has_key rd w \<Longrightarrow> wins (item (fst (count_result m (rd, ov))) w) = wins (item rd w) + 1"
    and "has_key rd l \<Longrightarrow> losses (item (fst (count_result m (rd, ov))) l) = losses (item rd l) + 1"
  using assms loser_of_neq [OF assms(2)]
  by (simp_all add: count_result_def Let_def item_modify has_key_modify)

subsection \<open>The sum of the games counts\<close>

lemma total_update:
  "sum_list (map (g \<circ> snd) (AList.update k v al)) + (case map_of al k of Some s \<Rightarrow> g s | None \<Rightarrow> 0)
     = sum_list (map (g \<circ> snd) al) + g v" for g :: "'v \<Rightarrow> nat"
  by (induction al) auto

lemma total_modify:
  assumes "\<And>s. total_games (f s) = total_games s + n"
  shows "total (modify rd k f) = total rd + n"
  using total_update [of total_games k "f (item rd k)" rd] assms
  by (auto simp: total_def modify_def item_def default_standing_def split: option.splits)

lemma keys_modify_present: "has_key rd k \<Longrightarrow> fst ` set (modify rd k f) = fst ` set rd"
  by (auto simp: keys_modify has_key_iff)

lemma total_add_games: "total (add_games rd t n) = total rd + (if has_key rd t then n else 0)"
  by (simp add: add_games_def total_modify)

lemma keys_add_games: "fst ` set (add_games rd t n) = fst ` set rd"
  by (simp add: add_games_def keys_modify_present)

lemma count_result_total:
  "total (fst (count_result m st)) = total (fst st) \<and>
   fst ` set (fst (count_result m st)) = fst ` set (fst st)"
proof (cases "winner_id m")
  case None
  then show ?thesis by (simp add: count_result_no_winner)
next
  case (Some w)
  define rd1 where
    "rd1 = (if has_key (fst st) w then modify (fst st) w (\<lambda>s. s\<lparr>wins := wins s + 1\<rparr>) else fst st)"
  have 1: "total rd1 = total (fst st) \<and> fst ` set rd1 = fst ` set (fst st)"
    unfolding rd1_def
    using total_modify [of "\<lambda>s. s\<lparr>wins := wins s + 1\<rparr>" 0 "fst st" w]
    by (simp add: keys_modify_present)
  have 2: "has_key rd1 l \<Longrightarrow> total (modify rd1 l (\<lambda>s. s\<lparr>losses := losses s + 1\<rparr>)) = total rd1
      \<and> fst ` set (modify rd1 l (\<lambda>s. s\<lparr>losses := losses s + 1\<rparr>)) = fst ` set rd1" for l
    using total_modify [of "\<lambda>s. s\<lparr>losses := losses s + 1\<rparr>" 0 rd1 l]
    by (simp add: keys_modify_present)
  have "fst (count_result m st) =
      (case loser_of (opponent_ids m) w of
         Some l \<Rightarrow> if has_key rd1 l then modify rd1 l (\<lambda>s. s\<lparr>losses := losses s + 1\<rparr>) else rd1
       | None \<Rightarrow> rd1)"
    using Some unfolding rd1_def by (simp add: count_result_def Let_def)
  then show ?thesis
    using 1 2 by (simp split: option.splits)
qed

lemma first_pass_step_total:
  assumes "winner_id m \<noteq> None" and "fst ` set (fst st) = fst ` set tm"
  shows "\<exists>rd'. first_pass_step m st = Inr (rd', Some (opponent_ids m))
           \<and> total rd' = total (fst st) + games_credit tm m
           \<and> fst ` set rd' = fst ` set tm"
proof -
  from assms(1) obtain w where w: "winner_id m = Some w" by auto
  obtain rd1 where st1: "count_result m st = (rd1, Some (opponent_ids m))"
    using count_result_winner [OF w, of st] by (cases "count_result m st") auto
  have s1: "total rd1 = total (fst st)" "fst ` set rd1 = fst ` set tm"
    using count_result_total [of m st] assms(2) by (simp_all add: st1)
  have tr: "has_key rd1 t \<longleftrightarrow> tracked tm t" for t
    by (simp add: has_key_iff s1(2) tracked_def)
  have tr2: "has_key (add_games rd1 a n) t \<longleftrightarrow> tracked tm t" for t a n
    by (simp add: has_key_iff keys_add_games s1(2) tracked_def)
  show ?thesis
    unfolding first_pass_step_def st1
    by (auto simp: count_games_def Let_def games_credit_def total_add_games keys_add_games tr tr2 s1
          split: list.splits)
qed

lemma first_pass_total:
  assumes "\<forall>m \<in> set ms. winner_id m \<noteq> None" and "fst ` set (fst st) = fst ` set tm"
  shows "\<exists>st'. first_pass ms st = Inr st'
           \<and> total (fst st') = total (fst st) + sum_list (map (games_credit tm) ms)
           \<and> fst ` set (fst st') = fst ` set tm"
  using assms
proof (induction ms arbitrary: st)
  case Nil
  then show ?case by simp
next
  case (Cons m ms)
  from Cons.prems obtain rd1 where 1: "first_pass_step m st = Inr (rd1, Some (opponent_ids m))"
    and 2: "total rd1 = total (fst st) + games_credit tm m" and 3: "fst ` set rd1 = fst ` set tm"
    using first_pass_step_total [of m st tm] by auto
  from Cons.IH [of "(rd1, Some (opponent_ids m))"] Cons.prems(1) 3
  obtain st' where "first_pass ms (rd1, Some (opponent_ids m)) = Inr st'"
    and "total (fst st') = total rd1 + sum_list (map (games_credit tm) ms)"
    and "fst ` set (fst st') = fst ` set tm"
    by auto
  then show ?case using 1 2 by simp
qed

lemma init_total:
  "total (init_ranking_data tm rd) = total rd \<and>
   fst ` set (init_ranking_data tm rd) = fst ` set tm \<union> fst ` set rd"
proof (induction tm rd rule: init_ranking_data.induct)
  case (1 rd)
  then show ?case by simp
next
  case (2 team_id team_name rest rd)
  have "total (modify rd team_id (\<lambda>s. s\<lparr>name := team_name\<rparr>)) = total rd"
    using total_modify [of "\<lambda>s. s\<lparr>name := team_name\<rparr>" 0 rd team_id] by simp
  then show ?case using 2 by (auto simp: keys_modify)
qed

lemma second_pass_step_total: "total (second_pass_step wr m rd) = total rd"
proof -
  have "total (modify rd w (\<lambda>s. s\<lparr>points := points s + p\<rparr>)) = total rd" for w p
    using total_modify [of "\<lambda>s. s\<lparr>points := points s + p\<rparr>" 0 rd w] by simp
  then show ?thesis
    by (simp add: second_pass_step_def split: option.splits)
qed

lemma second_pass_total: "total (second_pass wr ms rd) = total rd"
  by (induction ms arbitrary: rd) (simp_all add: second_pass_step_total)

lemma sum_insort_key: "sum_list (map g (insort_key f x xs)) = g x + sum_list (map g xs)" for g :: "'a \<Rightarrow> nat"
  by (induction xs) auto

lemma sum_sort_key: "sum_list (map g (sort_key f xs)) = sum_list (map g xs)" for g :: "'a \<Rightarrow> nat"
  by (induction xs) (simp_all add: sum_insort_key)

lemma total_games_normalized: "total_games (normalized d) = total_games d"
  by (simp add: normalized_def)

lemma sum_ranked:
  "sum_list (map total_games (sort_ranked (map (normalized \<circ> snd) rd))) = total rd"
  by (simp add: sort_ranked_def sum_sort_key total_def comp_def total_games_normalized)

lemma credit_two_tracked:
  assumes "\<forall>m \<in> set ms. length (opponent_ids m) = 2 \<longrightarrow> two_tracked_opponents tm m"
  shows "sum_list (map (games_credit tm) ms) = claimed_total_games tm ms"
  using assms
proof (induction ms)
  case Nil
  then show ?case by (simp add: claimed_total_games_def)
next
  case (Cons m ms)
  have "games_credit tm m = (if two_tracked_opponents tm m then 2 * length (games m) else 0)"
    using Cons.prems
    by (auto simp: games_credit_def two_tracked_opponents_def split: list.splits)
  then show ?case using Cons by (simp add: claimed_total_games_def)
qed

subsection \<open>Head-to-head tallies\<close>















subsection \<open>Further example runs\<close>

lemma run_best_of_three:
  "calculate_weighted_rankings [api_match (Some 1) [1, 2] [101, 102, 103]] [(1, ''A''), (2, ''B'')] =
     Inr [\<lparr>wins = 1, losses = 0, points = 120, name = ''A'', total_games = 3, normalized_points = 40\<rparr>,
          \<lparr>wins = 0, losses = 1, points = 0, name = ''B'', total_games = 3, normalized_points = 0\<rparr>]"
  by (simp add: example_defs)



lemma run_two_matches:
  "calculate_weighted_rankings
     [api_match (Some 1) [1, 2] [101, 102, 103], api_match (Some 2) [2, 7] [201]]
     [(1, ''A''), (2, ''B''), (3, ''C'')] =
     Inr [\<lparr>wins = 1, losses = 0, points = 120, name = ''A'', total_games = 3, normalized_points = 40\<rparr>,
          \<lparr>wins = 1, losses = 1, points = 100, name = ''B'', total_games = 4, normalized_points = 25\<rparr>,
          \<lparr>wins = 0, losses = 0, points = 0, name = ''C'', total_games = 0, normalized_points = 0\<rparr>]"
  by (simp add: example_defs)

subsection \<open>Points are never negative\<close>

lemma pn_modify:
  assumes "points_nonneg rd" and "\<And>s. 0 \<le> points s \<Longrightarrow> 0 \<le> points (f s)"
  shows "points_nonneg (modify rd k f)"
  unfolding points_nonneg_def
  using assms by (intro all_modify) (simp_all add: default_standing_def points_nonneg_def)

lemma pn_init: "points_nonneg rd \<Longrightarrow> points_nonneg (init_ranking_data tm rd)"
proof (induction tm rd rule: init_ranking_data.induct)
  case (1 rd)
  then show ?case by simp
next
  case (2 team_id team_name rest rd)
  have "points_nonneg (modify rd team_id (\<lambda>s. s\<lparr>name := team_name\<rparr>))"
    by (rule pn_modify [OF "2.prems"]) simp
  then show ?case using "2.IH" by simp
qed

lemma pn_count_result:
  assumes "points_nonneg (fst st)"
  shows "points_nonneg (fst (count_result m st))"
proof (cases "winner_id m")
  case None
  then show ?thesis using assms by (simp add: count_result_no_winner)
next
  case (Some w)
  define rd1 where
    "rd1 = (if has_key (fst st) w then modify (fst st) w (\<lambda>s. s\<lparr>wins := wins s + 1\<rparr>) else fst st)"
  have 1: "points_nonneg rd1"
    unfolding rd1_def using pn_modify [OF assms, of "\<lambda>s. s\<lparr>wins := wins s + 1\<rparr>" w] assms by simp
  have 2: "points_nonneg (modify rd1 l (\<lambda>s. s\<lparr>losses := losses s + 1\<rparr>))" for l
    by (rule pn_modify [OF 1]) simp
  have "fst (count_result m st) =
      (case loser_of (opponent_ids m) w of
         Some l \<Rightarrow> if has_key rd1 l then modify rd1 l (\<lambda>s. s\<lparr>losses := losses s + 1\<rparr>) else rd1
       | None \<Rightarrow> rd1)"
    using Some unfolding rd1_def by (simp add: count_result_def Let_def)
  then show ?thesis
    using 1 2 by (simp split: option.splits)
qed

lemma pn_add_games: "points_nonneg rd \<Longrightarrow> points_nonneg (add_games rd t n)"
  using pn_modify [of rd "\<lambda>s. s\<lparr>total_games := total_games s + n\<rparr>" t]
  by (simp add: add_games_def)

lemma pn_count_games:
  assumes "points_nonneg (fst st)" and "count_games m st = Inr st'"
  shows "points_nonneg (fst st')"
proof -
  have "points_nonneg (add_games (add_games (fst st) a n) b n)" for a b n
    by (intro pn_add_games assms(1))
  then show ?thesis
    using assms by (auto simp: count_games_def Let_def split: option.splits list.splits)
qed

lemma pn_first_pass:
  assumes "points_nonneg (fst st)" and "first_pass ms st = Inr st'"
  shows "points_nonneg (fst st')"
  using assms
proof (induction ms arbitrary: st)
  case Nil
  then show ?case by simp
next
  case (Cons m ms)
  from Cons.prems(2) obtain st1
    where 1: "first_pass_step m st = Inr st1" and 2: "first_pass ms st1 = Inr st'"
    by (cases "first_pass_step m st") auto
  from 1 have "points_nonneg (fst st1)"
    unfolding first_pass_step_def by (rule pn_count_games [OF pn_count_result [OF Cons.prems(1)]])
  then show ?case using Cons.IH 2 by blast
qed

lemma points_awarded_pos: "0 < points_awarded wr m w l"
proof -
  have "1 \<le> winrate_multiplier a b" for a b
    by (simp add: winrate_multiplier_def)
  then have "0 < winrate_multiplier a b" for a b
    by (rule less_le_trans [OF zero_less_one])
  moreover have "0 < series_multiplier n" for n
    by (simp add: series_multiplier_eq)
  ultimately show ?thesis
    by (simp add: points_awarded_def BASE_WIN_POINTS_def league_multiplier_def LEAGUE_WEIGHTS_def)
qed

lemma pn_second_pass_step:
  assumes "points_nonneg rd"
  shows "points_nonneg (second_pass_step wr m rd)"
proof -
  have "points_nonneg (modify rd w (\<lambda>s. s\<lparr>points := points s + points_awarded wr m w l\<rparr>))" for w l
    using points_awarded_pos [of wr m w l] by (intro pn_modify [OF assms]) simp
  then show ?thesis
    using assms by (simp add: second_pass_step_def split: option.splits)
qed

lemma pn_second_pass: "points_nonneg rd \<Longrightarrow> points_nonneg (second_pass wr ms rd)"
  by (induction ms arbitrary: rd) (simp_all add: pn_second_pass_step)

lemma points_normalized: "points (normalized d) = points d"
  by (simp add: normalized_def)

lemma cwr_points_nonneg:
  assumes "calculate_weighted_rankings ms tm = Inr out" and "s \<in> set out"
  shows "0 \<le> points s"
proof -
  from assms(1) obtain st where fp: "first_pass ms (init_ranking_data tm [], None) = Inr st"
    and eq: "out = sort_ranked (map (normalized \<circ> snd)
         (second_pass (map (\<lambda>(k, d). (k, rate d)) (fst st)) ms (fst st)))"
    by (rule cwr_InrD)
  define rd where "rd = second_pass (map (\<lambda>(k, d). (k, rate d)) (fst st)) ms (fst st)"
  have "points_nonneg (init_ranking_data tm [])"
    by (rule pn_init) (simp add: points_nonneg_def)
  then have "points_nonneg (fst st)"
    using pn_first_pass [OF _ fp] by simp
  then have "points_nonneg rd"
    unfolding rd_def by (rule pn_second_pass)
  moreover have "set out = normalized ` snd ` set rd"
    unfolding eq rd_def [symmetric] by (simp add: sort_ranked_def image_comp)
  ultimately show ?thesis
    using assms(2) unfolding points_nonneg_def by (auto simp: points_normalized)
qed

section \<open>The claims\<close>

text \<open>
  Claim C1 (the sum over all teams of \<^verbatim>\<open>total_games\<close> is twice the sum of the games counts
  over the matches that list exactly two tracked opponents, also for matches without a
  resolvable winner). Amended: for every match list in which every match has a winner with
  an id, the run returns, and the sum of \<^verbatim>\<open>total_games\<close> over the returned standings is the
  sum, over the matches that list exactly two opponent ids, of the games count taken once for
  each of the two ids that is a key of the team map. When both ids of every such match are
  tracked, that is twice the sum of the games counts over the matches with two tracked
  opponents. Nothing is stated about lists that contain a match without a winner id: there
  the accounting reads the opponent list of an earlier match.
\<close>

theorem total_games_sum:
  assumes "\<forall>m \<in> set ms. winner_id m \<noteq> None"
  shows "\<exists>out. calculate_weighted_rankings ms tm = Inr out
           \<and> sum_list (map total_games out) = sum_list (map (games_credit tm) ms)
           \<and> ((\<forall>m \<in> set ms. length (opponent_ids m) = 2 \<longrightarrow> two_tracked_opponents tm m)
                \<longrightarrow> sum_list (map total_games out) = claimed_total_games tm ms)"
proof -
  have "fst ` set (fst (init_ranking_data tm [], None :: int list option)) = fst ` set tm"
    using init_total [of tm "[]"] by simp
  from first_pass_total [OF assms this]
  obtain st' where fp: "first_pass ms (init_ranking_data tm [], None) = Inr st'"
    and t: "total (fst st') = total (init_ranking_data tm []) + sum_list (map (games_credit tm) ms)"
    by auto
  have "total (init_ranking_data tm []) = 0"
    using init_total [of tm "[]"] by (simp add: total_def)
  with t have t': "total (fst st') = sum_list (map (games_credit tm) ms)" by simp
  define out where "out = sort_ranked (map (normalized \<circ> snd)
         (second_pass (map (\<lambda>(k, d). (k, rate d)) (fst st')) ms (fst st')))"
  have "calculate_weighted_rankings ms tm = Inr out"
    unfolding out_def by (simp add: cwr_eq fp)
  moreover have "sum_list (map total_games out) = sum_list (map (games_credit tm) ms)"
    unfolding out_def by (simp add: sum_ranked second_pass_total t')
  ultimately show ?thesis
    using credit_two_tracked [of ms tm] by auto
qed

theorem total_games_sum_witness:
  "calculate_weighted_rankings
     [api_match (Some 1) [1, 2] [101, 102, 103], api_match (Some 2) [2, 7] [201]]
     [(1, ''A''), (2, ''B''), (3, ''C'')] =
     Inr [\<lparr>wins = 1, losses = 0, points = 120, name = ''A'', total_games = 3, normalized_points = 40\<rparr>,
          \<lparr>wins = 1, losses = 1, points = 100, name = ''B'', total_games = 4, normalized_points = 25\<rparr>,
          \<lparr>wins = 0, losses = 0, points = 0, name = ''C'', total_games = 0, normalized_points = 0\<rparr>]
   \<and> sum_list (map (games_credit [(1, ''A''), (2, ''B''), (3, ''C'')])
        [api_match (Some 1) [1, 2] [101, 102, 103], api_match (Some 2) [2, 7] [201]]) = 3 + 4
   \<and> calculate_weighted_rankings [api_match (Some 2) [1, 2] [101, 102, 103]]
      [(1, ''A''), (2, ''B''), (3, ''C'')] =
    Inr [\<lparr>wins = 1, losses = 0, points = 120, name = ''B'', total_games = 3, normalized_points = 40\<rparr>,
         \<lparr>wins = 0, losses = 1, points = 0, name = ''A'', total_games = 3, normalized_points = 0\<rparr>,
         \<lparr>wins = 0, losses = 0, points = 0, name = ''C'', total_games = 0, normalized_points = 0\<rparr>]
   \<and> claimed_total_games [(1, ''A''), (2, ''B''), (3, ''C'')]
        [api_match (Some 2) [1, 2] [101, 102, 103]] = 3 + 3"
proof -
  have w2: "\<forall>m \<in> set [api_match (Some 1) [1, 2] [101, 102, 103], api_match (Some 2) [2, 7] [201]].
      winner_id m \<noteq> None"
    by (simp add: api_match_def winner_id_def)
  have w1: "\<forall>m \<in> set [api_match (Some 2) [1, 2] [101, 102, 103]]. winner_id m \<noteq> None"
    by (simp add: api_match_def winner_id_def)
  have t1: "\<forall>m \<in> set [api_match (Some 2) [1, 2] [101, 102, 103]].
      length (opponent_ids m) = 2 \<longrightarrow> two_tracked_opponents [(1, ''A''), (2, ''B''), (3, ''C'')] m"
    by (simp add: example_defs two_tracked_opponents_def tracked_def)
  show ?thesis
    using total_games_sum [OF w2, of "[(1, ''A''), (2, ''B''), (3, ''C'')]"]
      total_games_sum [OF w1, of "[(1, ''A''), (2, ''B''), (3, ''C'')]"] t1
    by (simp add: run_two_matches run_one_match)
qed

text \<open>
  The claim as stated fails where a match lists one tracked and one untracked opponent: each
  of the two ids is tested on its own (\<^verbatim>\<open>if team1_id in ranking_data\<close>), so the tracked team
  is credited with the three games, while no match of the list has two tracked opponents.
\<close>

theorem one_tracked_opponent_counts_once:
  "calculate_weighted_rankings [api_match (Some 1) [1, 7] [101, 102, 103]] [(1, ''A''), (2, ''B'')] =
     Inr [\<lparr>wins = 1, losses = 0, points = 120, name = ''A'', total_games = 3, normalized_points = 40\<rparr>,
          \<lparr>wins = 0, losses = 0, points = 0, name = ''B'', total_games = 0, normalized_points = 0\<rparr>]
   \<and> sum_list (map total_games
         [\<lparr>wins = 1, losses = 0, points = 120, name = ''A'', total_games = 3, normalized_points = 40\<rparr>,
          \<lparr>wins = 0, losses = 0, points = 0, name = ''B'', total_games = 0, normalized_points = 0\<rparr>])
       \<noteq> claimed_total_games [(1, ''A''), (2, ''B'')] [api_match (Some 1) [1, 7] [101, 102, 103]]"
  by (simp add: example_defs claimed_total_games_def two_tracked_opponents_def tracked_def)

text \<open>
  Claim C2 (the engine raises no error of its own and completes on any list of match
  records). The code does not: \<^verbatim>\<open>opponents\<close> is assigned only inside the branch of a match
  with a winner id, and is read after that branch for every match. When the first match of
  the list has no winner, the read raises \<^verbatim>\<open>UnboundLocalError\<close>. The run below is the list of
  one match with two opponents, three games and no winner.
\<close>

theorem first_match_without_winner_raises:
  "calculate_weighted_rankings
     [api_match None [1, 2] [101, 102, 103]] [(1, ''A''), (2, ''B'')] = Inl UnboundLocalError"
  by (simp add: example_defs)

text \<open>
  Claim C3 (the upset multiplier is 1 when the winner's win rate of the first pass is at least
  the loser's, and 1 plus the difference otherwise; it lies between 1 and 2, and is 2 only
  when the loser's win rate is 1 and the winner's is 0). The win rates are those computed from
  any ranking dict, read with \<^verbatim>\<open>winrates.get(team_id, 0)\<close>.
\<close>

theorem upset_multiplier_range:
  assumes "calc_winrates rd = Inr winrates"
  shows "let winner_winrate = winrate_get winrates w;
             loser_winrate = winrate_get winrates l;
             u = winrate_multiplier winner_winrate loser_winrate
         in u = (if loser_winrate \<le> winner_winrate then 1 else 1 + (loser_winrate - winner_winrate))
            \<and> 1 \<le> u \<and> u \<le> 2
            \<and> (u = 2 \<longleftrightarrow> loser_winrate = 1 \<and> winner_winrate = 0)"
proof -
  have "0 \<le> winrate_get winrates w" "winrate_get winrates w \<le> 1"
       "0 \<le> winrate_get winrates l" "winrate_get winrates l \<le> 1"
    using winrate_get_bounds [OF assms] by blast+
  then show ?thesis
    by (auto simp: Let_def winrate_multiplier_def)
qed

theorem upset_multiplier_range_witness:
  "calc_winrates [(1, default_standing\<lparr>losses := 1\<rparr>), (2, default_standing\<lparr>wins := 1\<rparr>)] = Inr [(1, 0), (2, 1)]
   \<and> winrate_multiplier (winrate_get [(1, 0), (2, 1)] 1) (winrate_get [(1, 0), (2, 1)] 2) = 2
   \<and> winrate_multiplier (winrate_get [(1, 0), (2, 1)] 2) (winrate_get [(1, 0), (2, 1)] 1) = 1"
proof -
  have c: "calc_winrates [(1, default_standing\<lparr>losses := 1\<rparr>), (2, default_standing\<lparr>wins := 1\<rparr>)] = Inr [(1, 0), (2, 1)]"
    by (simp add: winrate_of_def truediv_def default_standing_def)
  show ?thesis
    using c upset_multiplier_range [OF c, of 1 2] upset_multiplier_range [OF c, of 2 1]
    by (simp add: winrate_get_def Let_def)
qed

text \<open>
  Claim C4 (exactly one standing per team id of the team map, and none for an id outside it).
  The first pass tests \<^verbatim>\<open>winner_id in ranking_data\<close> before it counts a win; the second pass
  writes \<^verbatim>\<open>ranking_data[winner_id]["points"]\<close> without that test, and the \<^verbatim>\<open>defaultdict\<close>
  inserts the missing key. In the run below team 7 is not in the map and beats team 2: the
  returned list has a third standing, with an empty name, no win and 120 points.
\<close>

theorem untracked_winner_gets_standing:
  "calculate_weighted_rankings [api_match (Some 7) [7, 2] [101, 102, 103]] [(1, ''A''), (2, ''B'')] =
     Inr [\<lparr>wins = 0, losses = 0, points = 0, name = ''A'', total_games = 0, normalized_points = 0\<rparr>,
          \<lparr>wins = 0, losses = 1, points = 0, name = ''B'', total_games = 3, normalized_points = 0\<rparr>,
          \<lparr>wins = 0, losses = 0, points = 120, name = '''', total_games = 0, normalized_points = 0\<rparr>]"
  by (simp add: example_defs)

text \<open>
  Claim C5 (a scored match adds \<^verbatim>\<open>BASE_WIN_POINTS * series_weight * upset_multiplier *
  league_weight\<close> to the points of the winner; the base is 100; series lengths 1, 3 and 5 weigh
  1, 1.2 and 1.5 and every other length 1; a league absent from \<^verbatim>\<open>LEAGUE_WEIGHTS\<close> weighs 1;
  a single best-of-three win awards 120 points and a normalised score of 40). A match is scored
  when it has a winner id and a loser id that are both truthy. In the example the win rates
  of the first pass are 1 for the winner and 0 for the loser, and the upset multiplier is 1.
\<close>

theorem points_awarded_formula:
  "(winner_id m = Some w \<and> loser_of (opponent_ids m) w = Some l \<and> w \<noteq> 0 \<and> l \<noteq> 0 \<longrightarrow>
      points (item (second_pass_step winrates m rd) w) =
        points (item rd w) +
          BASE_WIN_POINTS * series_multiplier (length (games m))
            * winrate_multiplier (winrate_get winrates w) (winrate_get winrates l)
            * league_multiplier (league m)
      \<and> (\<forall>k. k \<noteq> w \<longrightarrow> item (second_pass_step winrates m rd) k = item rd k))
   \<and> BASE_WIN_POINTS = 100
   \<and> series_multiplier 1 = 1 \<and> series_multiplier 3 = 6 / 5 \<and> series_multiplier 5 = 3 / 2
   \<and> (n \<noteq> 1 \<and> n \<noteq> 3 \<and> n \<noteq> 5 \<longrightarrow> series_multiplier n = 1)
   \<and> (map_of LEAGUE_WEIGHTS lg = None \<longrightarrow> league_multiplier lg = 1)
   \<and> calculate_weighted_rankings [api_match (Some 1) [1, 2] [101, 102, 103]] [(1, ''A''), (2, ''B'')] =
       Inr [\<lparr>wins = 1, losses = 0, points = 120, name = ''A'', total_games = 3, normalized_points = 40\<rparr>,
            \<lparr>wins = 0, losses = 1, points = 0, name = ''B'', total_games = 3, normalized_points = 0\<rparr>]"
proof (intro conjI impI allI)
  assume a: "winner_id m = Some w \<and> loser_of (opponent_ids m) w = Some l \<and> w \<noteq> 0 \<and> l \<noteq> 0"
  then have step: "second_pass_step winrates m rd =
     modify rd w (\<lambda>s. s\<lparr>points := points s + points_awarded winrates m w l\<rparr>)"
    by (simp add: second_pass_step_scored)
  show "points (item (second_pass_step winrates m rd) w) =
        points (item rd w) +
          BASE_WIN_POINTS * series_multiplier (length (games m))
            * winrate_multiplier (winrate_get winrates w) (winrate_get winrates l)
            * league_multiplier (league m)"
    unfolding step by (simp add: item_modify points_awarded_def)
  fix k assume "k \<noteq> w"
  then show "item (second_pass_step winrates m rd) k = item rd k"
    unfolding step by (simp add: item_modify)
next
  show "calculate_weighted_rankings [api_match (Some 1) [1, 2] [101, 102, 103]] [(1, ''A''), (2, ''B'')] =
       Inr [\<lparr>wins = 1, losses = 0, points = 120, name = ''A'', total_games = 3, normalized_points = 40\<rparr>,
            \<lparr>wins = 0, losses = 1, points = 0, name = ''B'', total_games = 3, normalized_points = 0\<rparr>]"
    by (rule run_best_of_three)
qed (simp_all add: series_multiplier_eq league_multiplier_absent BASE_WIN_POINTS_def)

theorem points_awarded_formula_witness:
  "winner_id (api_match (Some 1) [1, 2] [101, 102, 103]) = Some 1
   \<and> loser_of (opponent_ids (api_match (Some 1) [1, 2] [101, 102, 103])) 1 = Some 2
   \<and> points (item (second_pass_step [(1, 1 / 4), (2, 3 / 4)] (api_match (Some 1) [1, 2] [101, 102, 103])
        [(1, default_standing), (2, default_standing)]) 1) = 180
   \<and> item (second_pass_step [(1, 1 / 4), (2, 3 / 4)] (api_match (Some 1) [1, 2] [101, 102, 103])
        [(1, default_standing), (2, default_standing)]) 2 = default_standing
   \<and> series_multiplier 2 = 1
   \<and> map_of LEAGUE_WEIGHTS (Some 4194) = None \<and> league_multiplier (Some 4194) = 1"
proof -
  have g: "winner_id (api_match (Some 1) [1, 2] [101, 102, 103]) = Some 1
      \<and> loser_of (opponent_ids (api_match (Some 1) [1, 2] [101, 102, 103])) 1 = Some 2
      \<and> (1::int) \<noteq> 0 \<and> (2::int) \<noteq> 0"
    by (simp add: example_defs)
  have l: "map_of LEAGUE_WEIGHTS (Some 4194) = None"
    by (simp add: LEAGUE_WEIGHTS_def)
  show ?thesis
    using g l points_awarded_formula [of "api_match (Some 1) [1, 2] [101, 102, 103]" 1 2
        "[(1, 1 / 4), (2, 3 / 4)]" "[(1, default_standing), (2, default_standing)]" 2 "Some 4194"]
    by (simp add: example_defs)
qed



text \<open>
  Claim C7 (for every team in the output, \<^verbatim>\<open>normalized_points\<close> is
  \<^verbatim>\<open>points / total_games\<close> when \<^verbatim>\<open>total_games > 0\<close> and 0 when \<^verbatim>\<open>total_games = 0\<close>; no
  division by zero is observable). Both divisions of the code are fallible operations of the
  model; the run never ends in \<^verbatim>\<open>ZeroDivisionError\<close>, and every standing of a returned list
  has the stated value.
\<close>

theorem normalized_points_well_defined:
  "calculate_weighted_rankings ms tm \<noteq> Inl ZeroDivisionError \<and>
   (\<forall>out. calculate_weighted_rankings ms tm = Inr out \<longrightarrow>
      (\<forall>s \<in> set out. normalized_points s =
         (if total_games s > 0 then points s / of_nat (total_games s) else 0)))"
proof (intro conjI allI impI ballI)
  show "calculate_weighted_rankings ms tm \<noteq> Inl ZeroDivisionError"
  proof
    assume "calculate_weighted_rankings ms tm = Inl ZeroDivisionError"
    then have "ZeroDivisionError = UnboundLocalError" by (rule cwr_error)
    then show False by simp
  qed
next
  fix out s
  assume "calculate_weighted_rankings ms tm = Inr out" and "s \<in> set out"
  then obtain d where "normalized_points d = 0" and "s = normalized d"
    using cwr_standing by blast
  then show "normalized_points s =
      (if total_games s > 0 then points s / of_nat (total_games s) else 0)"
    by (simp add: normalized_ok)
qed

theorem normalized_points_well_defined_witness:
  "calculate_weighted_rankings [api_match (Some 2) [1, 2] [101, 102, 103]]
      [(1, ''A''), (2, ''B''), (3, ''C'')] =
    Inr [\<lparr>wins = 1, losses = 0, points = 120, name = ''B'', total_games = 3, normalized_points = 40\<rparr>,
         \<lparr>wins = 0, losses = 1, points = 0, name = ''A'', total_games = 3, normalized_points = 0\<rparr>,
         \<lparr>wins = 0, losses = 0, points = 0, name = ''C'', total_games = 0, normalized_points = 0\<rparr>] \<and>
   (40 :: rat) = 120 / of_nat 3 \<and> (0 :: rat) = 0 / of_nat 3"
proof -
  have "\<forall>s \<in> set
        [\<lparr>wins = 1, losses = 0, points = 120, name = ''B'', total_games = 3, normalized_points = 40\<rparr>,
         \<lparr>wins = 0, losses = 1, points = 0, name = ''A'', total_games = 3, normalized_points = 0\<rparr>,
         \<lparr>wins = 0, losses = 0, points = 0, name = ''C'', total_games = 0, normalized_points = 0\<rparr>].
      normalized_points s = (if total_games s > 0 then points s / of_nat (total_games s) else 0)"
    using normalized_points_well_defined
      [of "[api_match (Some 2) [1, 2] [101, 102, 103]]" "[(1, ''A''), (2, ''B''), (3, ''C'')]"]
      run_one_match
    by blast
  then show ?thesis using run_one_match by simp
qed

text \<open>
  Claim C8 (the returned standings list is sorted in non-increasing order of
  \<^verbatim>\<open>normalized_points\<close>). The run returns whenever the match list is empty or starts with a
  match that has a winner id, and every list it returns is in non-increasing order.
\<close>

theorem standings_sorted_descending:
  "(ms = [] \<or> winner_id (hd ms) \<noteq> None \<longrightarrow> (\<exists>out. calculate_weighted_rankings ms tm = Inr out)) \<and>
   (\<forall>out. calculate_weighted_rankings ms tm = Inr out \<longrightarrow>
      sorted_wrt (\<lambda>a b. b \<le> a) (map normalized_points out))"
proof (intro conjI allI impI)
  assume "ms = [] \<or> winner_id (hd ms) \<noteq> None"
  then show "\<exists>out. calculate_weighted_rankings ms tm = Inr out"
    by (simp add: cwr_returns_iff)
next
  fix out
  assume "calculate_weighted_rankings ms tm = Inr out"
  then obtain xs where "out = sort_ranked xs"
    by (rule cwr_InrD)
  then show "sorted_wrt (\<lambda>a b. b \<le> a) (map normalized_points out)"
    using sorted_sort_key [of "\<lambda>x. - normalized_points x" xs]
    by (simp add: sort_ranked_def sorted_neg_key)
qed

theorem standings_sorted_descending_witness:
  "winner_id (hd [api_match (Some 2) [1, 2] [101, 102, 103]]) \<noteq> None \<and>
   calculate_weighted_rankings [api_match (Some 2) [1, 2] [101, 102, 103]]
      [(1, ''A''), (2, ''B''), (3, ''C'')] =
    Inr [\<lparr>wins = 1, losses = 0, points = 120, name = ''B'', total_games = 3, normalized_points = 40\<rparr>,
         \<lparr>wins = 0, losses = 1, points = 0, name = ''A'', total_games = 3, normalized_points = 0\<rparr>,
         \<lparr>wins = 0, losses = 0, points = 0, name = ''C'', total_games = 0, normalized_points = 0\<rparr>] \<and>
   sorted_wrt (\<lambda>a b. b \<le> a) [40, 0, 0 :: rat]"
proof -
  have w: "winner_id (hd [api_match (Some 2) [1, 2] [101, 102, 103]]) \<noteq> None"
    by (simp add: winner_id_def api_match_def)
  have "sorted_wrt (\<lambda>a b. b \<le> a) (map normalized_points
        [\<lparr>wins = 1, losses = 0, points = 120, name = ''B'', total_games = 3, normalized_points = 40\<rparr>,
         \<lparr>wins = 0, losses = 1, points = 0, name = ''A'', total_games = 3, normalized_points = 0\<rparr>,
         \<lparr>wins = 0, losses = 0, points = 0, name = ''C'', total_games = 0, normalized_points = 0\<rparr>])"
    using standings_sorted_descending
      [of "[api_match (Some 2) [1, 2] [101, 102, 103]]" "[(1, ''A''), (2, ''B''), (3, ''C'')]"]
      run_one_match
    by blast
  then show ?thesis using w run_one_match by simp
qed

text \<open>
  Claim C9 (points are never negative, and appending one more decisive match won by a team
  never decreases the final points of that team). The first pass counts a win over team 0,
  which raises the win rate of the winner; the second pass awards nothing for it, because the
  guard \<^verbatim>\<open>if winner_id and loser_id\<close> takes the loser id 0 for a missing loser. The upset
  bonus of the earlier win of team 1 shrinks, and nothing is added: its points fall from
  400/3 to 350/3. The first half of the claim holds on every run that returns (lemma
  \<open>cwr_points_nonneg\<close>).
\<close>

theorem win_over_team_zero_lowers_points:
  "calculate_weighted_rankings
     [api_match (Some 2) [1, 2] [101], api_match (Some 2) [1, 2] [102], api_match (Some 1) [1, 2] [103]]
     [(1, ''A''), (2, ''B'')] =
     Inr [\<lparr>wins = 2, losses = 1, points = 200, name = ''B'', total_games = 3,
            normalized_points = 200 / 3\<rparr>,
          \<lparr>wins = 1, losses = 2, points = 400 / 3, name = ''A'', total_games = 3,
            normalized_points = 400 / 9\<rparr>]
   \<and> outcome (api_match (Some 1) [1, 0] [104]) = Some (1, 0)
   \<and> calculate_weighted_rankings
     ([api_match (Some 2) [1, 2] [101], api_match (Some 2) [1, 2] [102], api_match (Some 1) [1, 2] [103]]
        @ [api_match (Some 1) [1, 0] [104]])
     [(1, ''A''), (2, ''B'')] =
     Inr [\<lparr>wins = 2, losses = 1, points = 200, name = ''B'', total_games = 3,
            normalized_points = 200 / 3\<rparr>,
          \<lparr>wins = 2, losses = 2, points = 350 / 3, name = ''A'', total_games = 4,
            normalized_points = 175 / 6\<rparr>]
   \<and> (350 / 3 :: rat) < 400 / 3"
  by (simp add: example_defs outcome_def)

text \<open>
  Claim C10 (a decisive match in which the id of a participant is 0 awards no points in the
  second pass and creates no head-to-head entry, while the first pass still counts its win
  and its loss for the ids that are in the dict). The statement is about the iteration of
  each of the three loops on such a match.
\<close>

theorem zero_id_match:
  assumes "outcome m = Some (w, l)" and "w = 0 \<or> l = 0"
  shows "second_pass_step winrates m rd = rd
     \<and> h2h_step m h = h
     \<and> (\<exists>rd'. first_pass_step m (rd, ov) = Inr (rd', Some (opponent_ids m))
          \<and> (has_key rd w \<longrightarrow> wins (item rd' w) = wins (item rd w) + 1)
          \<and> (has_key rd l \<longrightarrow> losses (item rd' l) = losses (item rd l) + 1))"
proof (intro conjI)
  from assms(1) have wl: "winner_id m = Some w" "loser_of (opponent_ids m) w = Some l"
    using outcome_SomeD by blast+
  show "second_pass_step winrates m rd = rd"
    using wl assms(2) by (auto simp: second_pass_step_def truthy_def)
  show "h2h_step m h = h"
    using wl assms(2) by (auto simp: h2h_step_def truthy_def)
  obtain rd' where rd': "count_games m (count_result m (rd, ov)) = Inr (rd', Some (opponent_ids m))"
    and same: "\<forall>k. wins (item rd' k) = wins (item (fst (count_result m (rd, ov))) k)
             \<and> losses (item rd' k) = losses (item (fst (count_result m (rd, ov))) k)"
    using count_games_Inr [OF count_result_counts(1) [OF wl]] by blast
  show "\<exists>rd'. first_pass_step m (rd, ov) = Inr (rd', Some (opponent_ids m))
          \<and> (has_key rd w \<longrightarrow> wins (item rd' w) = wins (item rd w) + 1)
          \<and> (has_key rd l \<longrightarrow> losses (item rd' l) = losses (item rd l) + 1)"
    unfolding first_pass_step_def
    using rd' same count_result_counts(2,3) [OF wl] by auto
qed

theorem zero_id_match_witness:
  "outcome (api_match (Some 1) [1, 0] [101]) = Some (1, 0)
   \<and> second_pass_step [(0, 0), (1, 1)] (api_match (Some 1) [1, 0] [101])
        [(0, default_standing), (1, default_standing)]
      = [(0, default_standing), (1, default_standing)]
   \<and> h2h_step (api_match (Some 1) [1, 0] [101]) [] = []
   \<and> first_pass_step (api_match (Some 1) [1, 0] [101]) ([(0, default_standing), (1, default_standing)], None)
      = Inr ([(0, default_standing\<lparr>losses := 1, total_games := 1\<rparr>),
              (1, default_standing\<lparr>wins := 1, total_games := 1\<rparr>)], Some [1, 0])"
proof -
  have o: "outcome (api_match (Some 1) [1, 0] [101]) = Some (1, 0)"
    by (simp add: outcome_def example_defs)
  have z: "(1 :: int) = 0 \<or> (0 :: int) = 0"
    by simp
  have f: "first_pass_step (api_match (Some 1) [1, 0] [101]) ([(0, default_standing), (1, default_standing)], None)
      = Inr ([(0, default_standing\<lparr>losses := 1, total_games := 1\<rparr>),
              (1, default_standing\<lparr>wins := 1, total_games := 1\<rparr>)], Some [1, 0])"
    by (simp add: example_defs)
  show ?thesis
    using o f zero_id_match [OF o z, where winrates = "[(0, 0), (1, 1)]"
        and rd = "[(0, default_standing), (1, default_standing)]" and h = "[]" and ov = None]
    by simp
qed

end
